theory Spec2Isabelle
  imports Main
begin

section \<open>booksonpaste: the paragraph accumulation of \<open>generate_text\<close>\<close>

text \<open>
  This theory embeds the part of \<^verbatim>\<open>src/booksonpaste/bop.py\<close> that assembles the
  generated text: lines 182 to 231 of \<^verbatim>\<open>generate_text\<close>, that is the choice of the
  starting paragraph and the accumulation loop, with the partial-paragraph branch.

  What lies outside the function is a parameter of the model:
  \<^item> \<open>ct\<close> is \<^verbatim>\<open>count_tokens\<close>, the length of the tiktoken encoding of a string, an
    opaque function into the natural numbers;
  \<^item> \<open>paragraphs\<close> is the pool as lines 161 to 175 have built it;
  \<^item> \<open>start_idx\<close> is the value drawn by \<^verbatim>\<open>random.randint(0, len(paragraphs) - 1)\<close>.

  A Python string is modelled as a \<^typ>\<open>string\<close>, one \<^typ>\<open>char\<close> for each code point
  (below 256), so that \<^verbatim>\<open>len\<close> is \<^const>\<open>length\<close>. Python integers are \<^typ>\<open>int\<close>.
\<close>

subsection \<open>Strings: separator, slicing, \<open>split\<close> and \<open>join\<close>\<close>

text \<open>The literal \<^verbatim>\<open>'\n\n'\<close> that follows every paragraph of the result.\<close>

definition sep :: string where
  "sep = [CHR 0x0A, CHR 0x0A]"

text \<open>
  \<^verbatim>\<open>xs[:stop]\<close>. Python adds the length to a negative \<open>stop\<close>, then clamps the bound
  to the range from 0 to the length.
\<close>

definition slice_to :: "'a list \<Rightarrow> int \<Rightarrow> 'a list" where
  "slice_to xs stop =
     (let n = int (length xs);
          j = (if stop < 0 then max (n + stop) 0 else min stop n)
      in take (nat j) xs)"

text \<open>
  The characters at which \<^verbatim>\<open>str.split()\<close> without argument separates words: those for
  which \<^verbatim>\<open>str.isspace\<close> holds, here for the code points below 256.
\<close>

definition is_space :: "char \<Rightarrow> bool" where
  "is_space c =
     (let n = (of_char c :: nat)
      in (9 \<le> n \<and> n \<le> 13) \<or> (28 \<le> n \<and> n \<le> 32) \<or> n = 133 \<or> n = 160)"

text \<open>
  \<^verbatim>\<open>s.split()\<close>: the maximal runs of characters that are not whitespace, in order.
  The first argument is the word being read.
\<close>

fun split_from :: "string \<Rightarrow> string \<Rightarrow> string list" where
  "split_from w [] = (if w = [] then [] else [w])"
| "split_from w (c # cs) =
     (if is_space c
      then (if w = [] then split_from [] cs else w # split_from [] cs)
      else split_from (w @ [c]) cs)"

definition split :: "string \<Rightarrow> string list" where
  "split s = split_from [] s"

text \<open>\<^verbatim>\<open>d.join(ws)\<close>.\<close>

fun join :: "string \<Rightarrow> string list \<Rightarrow> string" where
  "join d [] = []"
| "join d [w] = w"
| "join d (w # v # ws) = w @ d @ join d (v # ws)"

subsection \<open>The accumulation state and its errors\<close>

datatype error = ValueError | IndexError

text \<open>The three variables the loop of \<^verbatim>\<open>generate_text\<close> updates.\<close>

record state =
  result :: "string list"
  current_size :: int
  current_idx :: nat

text \<open>
  Lines 194 to 197: the size the loop charges for a paragraph. Every mode other than
  \<^verbatim>\<open>'tokens'\<close> takes the second branch.
\<close>

definition next_size :: "(string \<Rightarrow> nat) \<Rightarrow> string \<Rightarrow> string \<Rightarrow> int" where
  "next_size ct mode paragraph =
     (if mode = ''tokens'' then int (ct paragraph) else int (length (paragraph @ sep)))"

text \<open>
  Lines 207 to 212: the loop over the words of the first paragraph. It leaves at the
  first word that does not fit and returns the words accepted so far.
\<close>

fun take_words :: "(string \<Rightarrow> nat) \<Rightarrow> int \<Rightarrow> string list \<Rightarrow> string list \<Rightarrow> int \<Rightarrow> string list" where
  "take_words ct target_size [] partial partial_size = partial"
| "take_words ct target_size (word # words) partial partial_size =
     (let word_size = int (ct (word @ '' ''))
      in if partial_size + word_size > target_size then partial
         else take_words ct target_size words (partial @ [word]) (partial_size + word_size))"

text \<open>
  Lines 203 to 216: what the loop appends to the empty \<^verbatim>\<open>result\<close> when the first
  paragraph does not fit; the list of the strings appended (none or one).
\<close>

definition partial_split :: "(string \<Rightarrow> nat) \<Rightarrow> int \<Rightarrow> string \<Rightarrow> string \<Rightarrow> string list" where
  "partial_split ct target_size mode paragraph =
     (if mode = ''tokens''
      then (let partial = take_words ct target_size (split paragraph) [] 0
            in if partial \<noteq> [] then [join '' '' partial @ sep] else [])
      else [slice_to paragraph (target_size - 2) @ sep])"

subsection \<open>The loop\<close>

text \<open>
  Lines 191 to 229. The loop has no bound of its own: it ends when a paragraph does not
  fit or when the index is back at \<open>start_idx\<close>. It is therefore defined in the option
  monad, where \<^const>\<open>None\<close> stands for a run that never ends; that it ends is a
  theorem below. Reading \<^verbatim>\<open>paragraphs[current_idx]\<close> outside the list raises
  \<^verbatim>\<open>IndexError\<close>.
\<close>

partial_function (option) accumulate ::
  "(string \<Rightarrow> nat) \<Rightarrow> string list \<Rightarrow> int \<Rightarrow> string \<Rightarrow> nat \<Rightarrow> state \<Rightarrow> (error + state) option"
where
  "accumulate ct paragraphs target_size mode start_idx s =
     (if length paragraphs \<le> current_idx s then Some (Inl IndexError)
      else if current_size s + next_size ct mode (paragraphs ! current_idx s) > target_size
      then Some (Inr (if result s = []
                      then s\<lparr>result := partial_split ct target_size mode (paragraphs ! current_idx s)\<rparr>
                      else s))
      else if (current_idx s + 1) mod length paragraphs = start_idx
      then Some (Inr
             \<lparr>result = result s @ [paragraphs ! current_idx s @ sep],
              current_size = current_size s + next_size ct mode (paragraphs ! current_idx s),
              current_idx = (current_idx s + 1) mod length paragraphs\<rparr>)
      else accumulate ct paragraphs target_size mode start_idx
             \<lparr>result = result s @ [paragraphs ! current_idx s @ sep],
              current_size = current_size s + next_size ct mode (paragraphs ! current_idx s),
              current_idx = (current_idx s + 1) mod length paragraphs\<rparr>)"

text \<open>
  Lines 182 to 231. \<^verbatim>\<open>random.randint(0, -1)\<close> raises \<^verbatim>\<open>ValueError\<close> on an empty pool;
  otherwise the loop starts from the empty result at \<open>start_idx\<close> and the function
  returns \<^verbatim>\<open>''.join(result)\<close>.
\<close>

definition init :: "nat \<Rightarrow> state" where
  "init start_idx = \<lparr>result = [], current_size = 0, current_idx = start_idx\<rparr>"

definition generate_text ::
  "(string \<Rightarrow> nat) \<Rightarrow> string list \<Rightarrow> nat \<Rightarrow> int \<Rightarrow> string \<Rightarrow> (error + string) option"
where
  "generate_text ct paragraphs start_idx target_size mode =
     (if paragraphs = [] then Some (Inl ValueError)
      else case accumulate ct paragraphs target_size mode start_idx (init start_idx) of
             None \<Rightarrow> None
           | Some (Inl e) \<Rightarrow> Some (Inl e)
           | Some (Inr s) \<Rightarrow> Some (Inr (concat (result s))))"

subsection \<open>The partial-paragraph splitter as the specification words it\<close>



subsection \<open>The states of an undisturbed walk\<close>

text \<open>
  The notions below are not in the source; the proofs use them to name the states the
  loop runs through. \<open>cyc paragraphs start_idx k\<close> is the first \<open>k\<close> paragraphs in cyclic
  order from \<open>start_idx\<close>, \<open>walked\<close> the state after appending them whole, \<open>overflows\<close>
  the test of line 200 in that state, and \<open>final\<close> the state the loop leaves when it stops
  after \<open>j\<close> whole paragraphs.
\<close>

definition cyc :: "string list \<Rightarrow> nat \<Rightarrow> nat \<Rightarrow> string list" where
  "cyc paragraphs start_idx k = take k (rotate start_idx paragraphs)"

definition walked :: "(string \<Rightarrow> nat) \<Rightarrow> string \<Rightarrow> string list \<Rightarrow> nat \<Rightarrow> nat \<Rightarrow> state" where
  "walked ct mode paragraphs start_idx k =
     \<lparr>result = map (\<lambda>p. p @ sep) (cyc paragraphs start_idx k),
      current_size = sum_list (map (next_size ct mode) (cyc paragraphs start_idx k)),
      current_idx = (start_idx + k) mod length paragraphs\<rparr>"

definition overflows :: "(string \<Rightarrow> nat) \<Rightarrow> int \<Rightarrow> string \<Rightarrow> string list \<Rightarrow> nat \<Rightarrow> nat \<Rightarrow> bool" where
  "overflows ct target_size mode paragraphs start_idx k =
     (current_size (walked ct mode paragraphs start_idx k)
        + next_size ct mode (paragraphs ! ((start_idx + k) mod length paragraphs)) > target_size)"

definition final :: "(string \<Rightarrow> nat) \<Rightarrow> int \<Rightarrow> string \<Rightarrow> string list \<Rightarrow> nat \<Rightarrow> nat \<Rightarrow> state" where
  "final ct target_size mode paragraphs start_idx j =
     (if j = 0
      then (init start_idx)\<lparr>result := partial_split ct target_size mode (paragraphs ! start_idx)\<rparr>
      else walked ct mode paragraphs start_idx j)"

section \<open>The loop, step by step\<close>

lemma wrap_iff:
  assumes "start_idx < n" "k < n"
  shows "((start_idx + Suc k) mod n = start_idx) = (Suc k = n)"
proof (cases "start_idx + Suc k < n")
  case True
  then show ?thesis by simp
next
  case False
  then have "(start_idx + Suc k) mod n = start_idx + Suc k - n"
    using assms by (simp add: le_mod_geq)
  then show ?thesis using assms False by auto
qed

lemma cyc_Suc:
  assumes "k < length paragraphs"
  shows "cyc paragraphs start_idx (Suc k) =
         cyc paragraphs start_idx k @ [paragraphs ! ((start_idx + k) mod length paragraphs)]"
  using assms by (simp add: cyc_def take_Suc_conv_app_nth nth_rotate)

lemma walked_Suc:
  assumes "k < length paragraphs"
  shows "walked ct mode paragraphs start_idx (Suc k) =
         \<lparr>result = result (walked ct mode paragraphs start_idx k)
                     @ [paragraphs ! current_idx (walked ct mode paragraphs start_idx k) @ sep],
          current_size = current_size (walked ct mode paragraphs start_idx k)
                     + next_size ct mode (paragraphs ! current_idx (walked ct mode paragraphs start_idx k)),
          current_idx = (current_idx (walked ct mode paragraphs start_idx k) + 1) mod length paragraphs\<rparr>"
  using assms by (simp add: walked_def cyc_Suc mod_Suc_eq)

lemma walked_0:
  assumes "start_idx < length paragraphs"
  shows "walked ct mode paragraphs start_idx 0 = init start_idx"
  using assms by (simp add: walked_def cyc_def init_def)

lemma result_walked_Nil:
  assumes "k \<le> length paragraphs" "paragraphs \<noteq> []"
  shows "(result (walked ct mode paragraphs start_idx k) = []) = (k = 0)"
  using assms by (auto simp: walked_def cyc_def)

lemma accumulate_step:
  assumes "start_idx < length paragraphs" "k < length paragraphs"
  shows "accumulate ct paragraphs target_size mode start_idx (walked ct mode paragraphs start_idx k) =
         (if overflows ct target_size mode paragraphs start_idx k
          then Some (Inr (if k = 0
                 then (init start_idx)\<lparr>result := partial_split ct target_size mode (paragraphs ! start_idx)\<rparr>
                 else walked ct mode paragraphs start_idx k))
          else if Suc k = length paragraphs
          then Some (Inr (walked ct mode paragraphs start_idx (Suc k)))
          else accumulate ct paragraphs target_size mode start_idx
                 (walked ct mode paragraphs start_idx (Suc k)))"
proof -
  let ?s = "walked ct mode paragraphs start_idx k"
  have ne: "paragraphs \<noteq> []" using assms by auto
  have idx: "current_idx ?s = (start_idx + k) mod length paragraphs"
    by (simp add: walked_def)
  have lt: "current_idx ?s < length paragraphs"
    unfolding idx using ne by (intro mod_less_divisor) simp
  have nil: "(result ?s = []) = (k = 0)"
    using assms ne by (simp add: result_walked_Nil)
  have wrap: "((current_idx ?s + 1) mod length paragraphs = start_idx) = (Suc k = length paragraphs)"
    using wrap_iff [OF assms] by (simp add: idx mod_Suc_eq)
  have ov: "(current_size ?s + next_size ct mode (paragraphs ! current_idx ?s) > target_size)
            = overflows ct target_size mode paragraphs start_idx k"
    by (simp add: overflows_def idx)
  let ?t = "\<lparr>result = result ?s @ [paragraphs ! current_idx ?s @ sep],
             current_size = current_size ?s + next_size ct mode (paragraphs ! current_idx ?s),
             current_idx = (current_idx ?s + 1) mod length paragraphs\<rparr>"
  have t: "?t = walked ct mode paragraphs start_idx (Suc k)"
    using walked_Suc [OF assms(2), of ct mode start_idx] by simp
  have s0: "k = 0 \<Longrightarrow> ?s = init start_idx"
    using assms by (simp add: walked_0)
  have "accumulate ct paragraphs target_size mode start_idx ?s =
        (if overflows ct target_size mode paragraphs start_idx k
         then Some (Inr (if k = 0
                then ?s\<lparr>result := partial_split ct target_size mode (paragraphs ! current_idx ?s)\<rparr>
                else ?s))
         else if Suc k = length paragraphs then Some (Inr ?t)
         else accumulate ct paragraphs target_size mode start_idx ?t)"
    using ov lt nil wrap by (subst accumulate.simps) simp
  then show ?thesis
    unfolding t using s0 by (auto simp: init_def)
qed

lemma accumulate_from:
  assumes "start_idx < length paragraphs" "k < length paragraphs"
  shows "\<exists>j. k \<le> j \<and> j \<le> length paragraphs \<and>
           (\<forall>i. k \<le> i \<and> i < j \<longrightarrow> \<not> overflows ct target_size mode paragraphs start_idx i) \<and>
           (j < length paragraphs \<longrightarrow> overflows ct target_size mode paragraphs start_idx j) \<and>
           accumulate ct paragraphs target_size mode start_idx (walked ct mode paragraphs start_idx k)
             = Some (Inr (final ct target_size mode paragraphs start_idx j))"
  using assms(2)
proof (induction "length paragraphs - k" arbitrary: k)
  case 0
  then show ?case by simp
next
  case (Suc d)
  note step = accumulate_step [OF assms(1) Suc.prems, of ct target_size mode]
  show ?case
  proof (cases "overflows ct target_size mode paragraphs start_idx k")
    case True
    then show ?thesis using step Suc.prems
      by (intro exI [of _ k]) (auto simp: final_def)
  next
    case no: False
    show ?thesis
    proof (cases "Suc k = length paragraphs")
      case True
      have "\<forall>i. k \<le> i \<and> i < Suc k \<longrightarrow> \<not> overflows ct target_size mode paragraphs start_idx i"
        using no by (auto simp: less_Suc_eq)
      then show ?thesis using step no True
        by (intro exI [of _ "Suc k"]) (auto simp: final_def)
    next
      case False
      then have lt: "Suc k < length paragraphs" using Suc.prems by simp
      have d: "d = length paragraphs - Suc k" using Suc.hyps(2) by simp
      from Suc.hyps(1) [OF d lt] obtain j where j:
        "Suc k \<le> j" "j \<le> length paragraphs"
        "\<forall>i. Suc k \<le> i \<and> i < j \<longrightarrow> \<not> overflows ct target_size mode paragraphs start_idx i"
        "j < length paragraphs \<longrightarrow> overflows ct target_size mode paragraphs start_idx j"
        "accumulate ct paragraphs target_size mode start_idx (walked ct mode paragraphs start_idx (Suc k))
           = Some (Inr (final ct target_size mode paragraphs start_idx j))"
        by blast
      have "\<forall>i. k \<le> i \<and> i < j \<longrightarrow> \<not> overflows ct target_size mode paragraphs start_idx i"
        using j(3) no by (metis Suc_leI le_neq_implies_less)
      moreover have "accumulate ct paragraphs target_size mode start_idx (walked ct mode paragraphs start_idx k)
           = Some (Inr (final ct target_size mode paragraphs start_idx j))"
        using step no False j(5) by simp
      ultimately show ?thesis using j(1,2,4)
        by (intro exI [of _ j]) simp
    qed
  qed
qed

lemma accumulate_init:
  assumes "start_idx < length paragraphs"
  shows "\<exists>j \<le> length paragraphs.
           (\<forall>i < j. \<not> overflows ct target_size mode paragraphs start_idx i) \<and>
           (j < length paragraphs \<longrightarrow> overflows ct target_size mode paragraphs start_idx j) \<and>
           accumulate ct paragraphs target_size mode start_idx (init start_idx)
             = Some (Inr (final ct target_size mode paragraphs start_idx j))"
proof -
  have "0 < length paragraphs" using assms by auto
  from accumulate_from [OF assms this, of ct target_size mode]
  show ?thesis using assms by (simp add: walked_0)
qed

lemma final_0:
  "final ct target_size mode paragraphs start_idx 0 =
     (init start_idx)\<lparr>result := partial_split ct target_size mode (paragraphs ! start_idx)\<rparr>"
  by (simp add: final_def)

lemma final_pos:
  "j \<noteq> 0 \<Longrightarrow> final ct target_size mode paragraphs start_idx j = walked ct mode paragraphs start_idx j"
  by (simp add: final_def)

lemma generate_text_final:
  assumes "start_idx < length paragraphs"
    and "accumulate ct paragraphs target_size mode start_idx (init start_idx) = Some (Inr s)"
  shows "generate_text ct paragraphs start_idx target_size mode = Some (Inr (concat (result s)))"
  using assms by (auto simp: generate_text_def)

lemma current_size_walked_Suc:
  assumes "k < length paragraphs"
  shows "current_size (walked ct mode paragraphs start_idx (Suc k)) =
         current_size (walked ct mode paragraphs start_idx k)
           + next_size ct mode (paragraphs ! ((start_idx + k) mod length paragraphs))"
  using assms by (simp add: walked_def cyc_Suc)

lemma walked_full:
  assumes "start_idx < length paragraphs"
  shows "current_idx (walked ct mode paragraphs start_idx (length paragraphs)) = start_idx"
    and "result (walked ct mode paragraphs start_idx (length paragraphs))
           = map (\<lambda>p. p @ sep) (rotate start_idx paragraphs)"
  using assms by (simp_all add: walked_def cyc_def)

lemma no_overflow_bound:
  assumes "Suc k \<le> length paragraphs"
    and "\<not> overflows ct target_size mode paragraphs start_idx k"
  shows "current_size (walked ct mode paragraphs start_idx (Suc k)) \<le> target_size"
  using assms by (simp add: current_size_walked_Suc overflows_def)

lemma cyc_nth:
  assumes "k \<le> length paragraphs"
  shows "cyc paragraphs start_idx k
         = map (\<lambda>i. paragraphs ! ((start_idx + i) mod length paragraphs)) [0..<k]"
  using assms by (induction k) (simp_all add: cyc_Suc, simp add: cyc_def)

lemma cyclic_index_eq:
  assumes "a \<le> b" "b < n" "(start_idx + a) mod n = (start_idx + b) mod n"
  shows "a = (b::nat)"
proof -
  have "(start_idx + b) mod n = (start_idx + a) mod n" using assms(3) by simp
  moreover have "start_idx + a \<le> start_idx + b" using assms(1) by simp
  ultimately have "n dvd (start_idx + b) - (start_idx + a)"
    by (simp only: mod_eq_dvd_iff_nat)
  then have "n dvd b - a" by simp
  moreover have "b - a < n" using assms(2) by simp
  ultimately have "b - a = 0" by (meson dvd_imp_le not_less zero_less_iff_neq_zero)
  then show ?thesis using assms(1) by simp
qed

lemma cyclic_indices_distinct:
  assumes "k \<le> n"
  shows "distinct (map (\<lambda>i. (start_idx + i) mod n) [0..<k])"
proof -
  have "inj_on (\<lambda>i. (start_idx + i) mod n) {0..<k}"
  proof (rule inj_onI)
    fix i j
    assume i: "i \<in> {0..<k}" and j: "j \<in> {0..<k}"
      and eq: "(start_idx + i) mod n = (start_idx + j) mod n"
    have "i < n" "j < n" using i j assms by simp_all
    show "i = j"
    proof (cases "i \<le> j")
      case True
      then show ?thesis using cyclic_index_eq [OF True \<open>j < n\<close> eq] by simp
    next
      case False
      then have "j \<le> i" by simp
      then show ?thesis using cyclic_index_eq [OF _ \<open>i < n\<close> eq [symmetric]] by simp
    qed
  qed
  then show ?thesis by (simp add: distinct_map)
qed

lemma concat_walked_Suc:
  assumes "k < length paragraphs"
  shows "concat (result (walked ct mode paragraphs start_idx (Suc k)))
         = (concat (result (walked ct mode paragraphs start_idx k))
              @ paragraphs ! ((start_idx + k) mod length paragraphs)) @ sep"
  using assms by (simp add: walked_def cyc_Suc)

lemma overflows_0:
  assumes "start_idx < length paragraphs"
  shows "overflows ct target_size mode paragraphs start_idx 0
         = (target_size < next_size ct mode (paragraphs ! start_idx))"
  using assms by (simp add: overflows_def walked_def cyc_def)

lemma first_overflow:
  assumes "start_idx < length paragraphs"
    and "target_size < next_size ct mode (paragraphs ! start_idx)"
  shows "accumulate ct paragraphs target_size mode start_idx (init start_idx)
           = Some (Inr ((init start_idx)\<lparr>result :=
               partial_split ct target_size mode (paragraphs ! start_idx)\<rparr>))"
    and "generate_text ct paragraphs start_idx target_size mode
           = Some (Inr (concat (partial_split ct target_size mode (paragraphs ! start_idx))))"
proof -
  have "0 < length paragraphs" using assms(1) by auto
  from accumulate_step [OF assms(1) this, of ct target_size mode]
  show a: "accumulate ct paragraphs target_size mode start_idx (init start_idx)
           = Some (Inr ((init start_idx)\<lparr>result :=
               partial_split ct target_size mode (paragraphs ! start_idx)\<rparr>))"
    using assms by (simp add: walked_0 overflows_0)
  show "generate_text ct paragraphs start_idx target_size mode
           = Some (Inr (concat (partial_split ct target_size mode (paragraphs ! start_idx))))"
    using generate_text_final [OF assms(1) a] by (simp add: init_def)
qed

lemma take_words_greedy:
  "\<exists>k \<le> length ws.
     take_words ct target_size ws partial partial_size = partial @ take k ws \<and>
     (0 < k \<longrightarrow> partial_size + sum_list (map (\<lambda>w. int (ct (w @ '' ''))) (take k ws)) \<le> target_size) \<and>
     (k < length ws \<longrightarrow>
        target_size < partial_size + sum_list (map (\<lambda>w. int (ct (w @ '' ''))) (take (Suc k) ws)))"
proof (induction ws arbitrary: partial partial_size)
  case Nil
  then show ?case by simp
next
  case (Cons w ws)
  let ?sz = "int (ct (w @ '' ''))"
  show ?case
  proof (cases "partial_size + ?sz > target_size")
    case True
    then show ?thesis by (intro exI [of _ 0]) simp
  next
    case False
    from Cons.IH [of "partial @ [w]" "partial_size + ?sz"] obtain k where k:
      "k \<le> length ws"
      "take_words ct target_size ws (partial @ [w]) (partial_size + ?sz) = (partial @ [w]) @ take k ws"
      "0 < k \<longrightarrow> partial_size + ?sz + sum_list (map (\<lambda>w. int (ct (w @ '' ''))) (take k ws)) \<le> target_size"
      "k < length ws \<longrightarrow>
        target_size < partial_size + ?sz + sum_list (map (\<lambda>w. int (ct (w @ '' ''))) (take (Suc k) ws))"
      by blast
    have "partial_size + sum_list (map (\<lambda>w. int (ct (w @ '' ''))) (take (Suc k) (w # ws))) \<le> target_size"
      using k(3) False by (cases "k = 0") simp_all
    then show ?thesis using k False
      by (intro exI [of _ "Suc k"]) (simp add: Let_def add.assoc)
  qed
qed

lemma split_from_words:
  assumes "\<forall>c \<in> set w. \<not> is_space c" and "v \<in> set (split_from w s)"
  shows "v \<noteq> [] \<and> (\<forall>c \<in> set v. \<not> is_space c)"
  using assms
proof (induction s arbitrary: w)
  case Nil
  then show ?case by (auto split: if_splits)
next
  case (Cons a s)
  show ?case
  proof (cases "is_space a")
    case True
    then have "v = w \<and> w \<noteq> [] \<or> v \<in> set (split_from [] s)"
      using Cons.prems(2) by (auto split: if_splits)
    then show ?thesis using Cons.IH [of "[]"] Cons.prems(1) by auto
  next
    case False
    then have "v \<in> set (split_from (w @ [a]) s)" using Cons.prems(2) by simp
    moreover have "\<forall>c \<in> set (w @ [a]). \<not> is_space c" using False Cons.prems(1) by simp
    ultimately show ?thesis using Cons.IH [of "w @ [a]"] by blast
  qed
qed

lemma split_from_concat:
  "concat (split_from w s) = w @ filter (\<lambda>c. \<not> is_space c) s"
  by (induction s arbitrary: w) auto

lemma split_words:
  "\<forall>v \<in> set (split s). v \<noteq> [] \<and> (\<forall>c \<in> set v. \<not> is_space c)"
  "concat (split s) = filter (\<lambda>c. \<not> is_space c) s"
  using split_from_words [of "[]" _ s] by (auto simp: split_def split_from_concat)

lemma slice_to_fits:
  assumes "2 \<le> target_size" "target_size < int (length p) + 2"
  shows "slice_to p (target_size - 2) = take (nat (target_size - 2)) p"
    and "int (length (slice_to p (target_size - 2) @ sep)) = target_size"
  using assms by (simp_all add: slice_to_def sep_def Let_def min_def)

lemma walk_40_50_60:
  assumes "length p0 = 40" "length p1 = 50" "length p2 = 60"
  shows "accumulate ct [p0, p1, p2] 100 ''chars'' 0 (init 0)
           = accumulate ct [p0, p1, p2] 100 ''chars'' 0
               \<lparr>result = [p0 @ sep], current_size = 42, current_idx = 1\<rparr>"
    and "accumulate ct [p0, p1, p2] 100 ''chars'' 0
               \<lparr>result = [p0 @ sep], current_size = 42, current_idx = 1\<rparr>
           = accumulate ct [p0, p1, p2] 100 ''chars'' 0
               \<lparr>result = [p0 @ sep, p1 @ sep], current_size = 94, current_idx = 2\<rparr>"
    and "accumulate ct [p0, p1, p2] 100 ''chars'' 0
               \<lparr>result = [p0 @ sep, p1 @ sep], current_size = 94, current_idx = 2\<rparr>
           = Some (Inr \<lparr>result = [p0 @ sep, p1 @ sep], current_size = 94, current_idx = 2\<rparr>)"
    and "94 + next_size ct ''chars'' p2 = 156"
proof -
  show "accumulate ct [p0, p1, p2] 100 ''chars'' 0 (init 0)
           = accumulate ct [p0, p1, p2] 100 ''chars'' 0
               \<lparr>result = [p0 @ sep], current_size = 42, current_idx = 1\<rparr>"
    using assms
    by (subst accumulate.simps [of _ _ _ _ _ "init 0"]) (simp add: init_def next_size_def sep_def)
  show "accumulate ct [p0, p1, p2] 100 ''chars'' 0
               \<lparr>result = [p0 @ sep], current_size = 42, current_idx = 1\<rparr>
           = accumulate ct [p0, p1, p2] 100 ''chars'' 0
               \<lparr>result = [p0 @ sep, p1 @ sep], current_size = 94, current_idx = 2\<rparr>"
    using assms
    by (subst accumulate.simps
          [of _ _ _ _ _ "\<lparr>result = [p0 @ sep], current_size = 42, current_idx = 1\<rparr>"])
       (simp add: next_size_def sep_def numeral_2_eq_2)
  show "accumulate ct [p0, p1, p2] 100 ''chars'' 0
               \<lparr>result = [p0 @ sep, p1 @ sep], current_size = 94, current_idx = 2\<rparr>
           = Some (Inr \<lparr>result = [p0 @ sep, p1 @ sep], current_size = 94, current_idx = 2\<rparr>)"
    using assms
    by (subst accumulate.simps) (simp add: next_size_def sep_def numeral_2_eq_2)
  show "94 + next_size ct ''chars'' p2 = 156"
    using assms by (simp add: next_size_def sep_def)
qed

lemma generate_40_50_60:
  assumes "length p0 = 40" "length p1 = 50" "length p2 = 60"
  shows "generate_text ct [p0, p1, p2] 0 100 ''chars'' = Some (Inr (p0 @ sep @ p1 @ sep))"
  using walk_40_50_60 [OF assms, of ct] by (simp add: generate_text_def)

lemma length_concat_chars:
  "int (length (concat (map (\<lambda>p. p @ sep) ps))) = sum_list (map (next_size ct ''chars'') ps)"
  by (induction ps) (simp_all add: next_size_def)

text \<open>
  In chars mode the size charged for a whole paragraph is the length of what is
  appended, and for a target of at least 2 the slice of the partial split leaves room
  for the separator: the length of the result is then within the target.
\<close>

lemma chars_within_target:
  assumes "start_idx < length paragraphs" "2 \<le> target_size"
  shows "\<exists>t. generate_text ct paragraphs start_idx target_size ''chars'' = Some (Inr t)
             \<and> int (length t) \<le> target_size"
proof -
  from accumulate_init [OF assms(1), of ct target_size "''chars''"] obtain j where j:
    "j \<le> length paragraphs"
    "\<forall>i < j. \<not> overflows ct target_size ''chars'' paragraphs start_idx i"
    "j < length paragraphs \<longrightarrow> overflows ct target_size ''chars'' paragraphs start_idx j"
    "accumulate ct paragraphs target_size ''chars'' start_idx (init start_idx)
       = Some (Inr (final ct target_size ''chars'' paragraphs start_idx j))"
    by blast
  let ?s = "final ct target_size ''chars'' paragraphs start_idx j"
  have "int (length (concat (result ?s))) \<le> target_size"
  proof (cases j)
    case 0
    then have "target_size < int (length (paragraphs ! start_idx)) + 2"
      using j(3) assms(1) by (auto simp: overflows_0 next_size_def sep_def)
    from slice_to_fits(2) [OF assms(2) this] show ?thesis
      using 0 by (simp add: final_0 partial_split_def)
  next
    case (Suc k)
    then have "\<not> overflows ct target_size ''chars'' paragraphs start_idx k" using j(2) by simp
    from no_overflow_bound [OF _ this] show ?thesis
      using Suc j(1) by (simp add: final_pos walked_def length_concat_chars [where ct = ct])
  qed
  then show ?thesis using generate_text_final [OF assms(1) j(4)] by simp
qed

lemma overflows_sum:
  assumes "k < length paragraphs"
  shows "overflows ct target_size mode paragraphs start_idx k
         = (target_size < sum_list (map (next_size ct mode) (take (Suc k) (rotate start_idx paragraphs))))"
  using assms cyc_Suc [OF assms, of start_idx]
  by (simp add: overflows_def walked_def) (simp add: cyc_def)

lemma sum_list_rotate:
  fixes f :: "'a \<Rightarrow> int"
  shows "sum_list (map f (rotate k xs)) = sum_list (map f xs)"
proof -
  have "sum_list (map f xs) = sum_list (map f (take (k mod length xs) xs @ drop (k mod length xs) xs))"
    by simp
  also have "\<dots> = sum_list (map f (rotate k xs))"
    by (simp only: rotate_drop_take map_append sum_list_append add.commute)
  finally show ?thesis by simp
qed



section \<open>Termination\<close>

text \<open>
  Claim C4. For every non-empty pool and every start index in it, the loop of
  \<^verbatim>\<open>generate_text\<close> ends and the function returns a string, not an error. The state it
  ends in is fixed by the number \<open>j\<close> of paragraphs that fit one after the other, in
  cyclic order from the start index: the sizes charged for the first \<open>i + 1\<close> of them are
  within the target for every \<open>i < j\<close>, and unless \<open>j\<close> is the size of the pool, paragraph
  \<open>j\<close> no longer fits. The loop has then appended exactly these \<open>j\<close> paragraphs (or, when
  \<open>j = 0\<close>, what the partial split gives), the counter is the sum of their sizes, and
  the cursor stands \<open>j\<close> places after the start index.

  In particular, when every paragraph of the cycle fits, the loop ends with the cursor
  back at the start index, after each paragraph of the pool has been appended once;
  the counter is the sum of the sizes charged for the whole pool and is within the
  target, and in chars mode it is the length of the string returned. (In tokens mode
  the counter adds up \<^verbatim>\<open>count_tokens(paragraph)\<close>; it is not the token count of the
  string.)
\<close>

theorem accumulate_stops_or_wraps:
  assumes "start_idx < length paragraphs"
  shows "(\<exists>j s. j \<le> length paragraphs \<and>
           accumulate ct paragraphs target_size mode start_idx (init start_idx) = Some (Inr s) \<and>
           generate_text ct paragraphs start_idx target_size mode = Some (Inr (concat (result s))) \<and>
           (\<forall>i < j. sum_list (map (next_size ct mode) (take (Suc i) (rotate start_idx paragraphs)))
                      \<le> target_size) \<and>
           (j < length paragraphs \<longrightarrow>
              target_size < sum_list (map (next_size ct mode) (take (Suc j) (rotate start_idx paragraphs)))) \<and>
           result s = (if j = 0 then partial_split ct target_size mode (paragraphs ! start_idx)
                       else map (\<lambda>p. p @ sep) (take j (rotate start_idx paragraphs))) \<and>
           current_size s = sum_list (map (next_size ct mode) (take j (rotate start_idx paragraphs))) \<and>
           current_idx s = (start_idx + j) mod length paragraphs)
         \<and> ((\<forall>i < length paragraphs.
                sum_list (map (next_size ct mode) (take (Suc i) (rotate start_idx paragraphs)))
                  \<le> target_size) \<longrightarrow>
              (\<exists>s. accumulate ct paragraphs target_size mode start_idx (init start_idx) = Some (Inr s) \<and>
                 current_idx s = start_idx \<and>
                 result s = map (\<lambda>p. p @ sep) (rotate start_idx paragraphs) \<and>
                 current_size s = sum_list (map (next_size ct mode) paragraphs) \<and>
                 current_size s \<le> target_size \<and>
                 (mode \<noteq> ''tokens'' \<longrightarrow> int (length (concat (result s))) = current_size s)) \<and>
              generate_text ct paragraphs start_idx target_size mode
                = Some (Inr (concat (map (\<lambda>p. p @ sep) (rotate start_idx paragraphs)))))"
proof -
  let ?n = "length paragraphs"
  let ?sum = "\<lambda>k. sum_list (map (next_size ct mode) (take k (rotate start_idx paragraphs)))"
  from accumulate_init [OF assms, of ct target_size mode] obtain j where j:
    "j \<le> ?n"
    "\<forall>i < j. \<not> overflows ct target_size mode paragraphs start_idx i"
    "j < ?n \<longrightarrow> overflows ct target_size mode paragraphs start_idx j"
    "accumulate ct paragraphs target_size mode start_idx (init start_idx)
       = Some (Inr (final ct target_size mode paragraphs start_idx j))"
    by blast
  let ?s = "final ct target_size mode paragraphs start_idx j"
  have gen: "generate_text ct paragraphs start_idx target_size mode = Some (Inr (concat (result ?s)))"
    using generate_text_final [OF assms j(4)] .
  have fits: "\<forall>i < j. ?sum (Suc i) \<le> target_size"
  proof (intro allI impI)
    fix i assume "i < j"
    then have "i < ?n" "\<not> overflows ct target_size mode paragraphs start_idx i"
      using j(1,2) by simp_all
    then show "?sum (Suc i) \<le> target_size" by (simp add: overflows_sum)
  qed
  have stop: "j < ?n \<longrightarrow> target_size < ?sum (Suc j)"
    using j(3) by (auto simp: overflows_sum)
  have res: "result ?s = (if j = 0 then partial_split ct target_size mode (paragraphs ! start_idx)
                       else map (\<lambda>p. p @ sep) (take j (rotate start_idx paragraphs)))"
    by (simp add: final_def init_def walked_def cyc_def)
  have size: "current_size ?s = ?sum j"
    by (simp add: final_def init_def walked_def cyc_def)
  have idx: "current_idx ?s = (start_idx + j) mod ?n"
    using assms by (simp add: final_def init_def walked_def)
  have A: "\<exists>j s. j \<le> ?n \<and>
           accumulate ct paragraphs target_size mode start_idx (init start_idx) = Some (Inr s) \<and>
           generate_text ct paragraphs start_idx target_size mode = Some (Inr (concat (result s))) \<and>
           (\<forall>i < j. ?sum (Suc i) \<le> target_size) \<and>
           (j < ?n \<longrightarrow> target_size < ?sum (Suc j)) \<and>
           result s = (if j = 0 then partial_split ct target_size mode (paragraphs ! start_idx)
                       else map (\<lambda>p. p @ sep) (take j (rotate start_idx paragraphs))) \<and>
           current_size s = ?sum j \<and>
           current_idx s = (start_idx + j) mod ?n"
    using j(1,4) gen fits stop res size idx by blast
  have B: "(\<exists>s. accumulate ct paragraphs target_size mode start_idx (init start_idx) = Some (Inr s) \<and>
                 current_idx s = start_idx \<and>
                 result s = map (\<lambda>p. p @ sep) (rotate start_idx paragraphs) \<and>
                 current_size s = sum_list (map (next_size ct mode) paragraphs) \<and>
                 current_size s \<le> target_size \<and>
                 (mode \<noteq> ''tokens'' \<longrightarrow> int (length (concat (result s))) = current_size s)) \<and>
              generate_text ct paragraphs start_idx target_size mode
                = Some (Inr (concat (map (\<lambda>p. p @ sep) (rotate start_idx paragraphs))))"
    if all: "\<forall>i < ?n. ?sum (Suc i) \<le> target_size"
  proof -
    have jn: "j = ?n"
    proof (rule ccontr)
      assume "j \<noteq> ?n"
      then have "j < ?n" using j(1) by simp
      then show False using stop all by force
    qed
    have pos: "j \<noteq> 0" using jn assms by auto
    then obtain k where k: "j = Suc k" using not0_implies_Suc by blast
    have r: "result ?s = map (\<lambda>p. p @ sep) (rotate start_idx paragraphs)"
      using res pos jn by simp
    have sz: "current_size ?s = sum_list (map (next_size ct mode) paragraphs)"
      using size jn by (simp add: sum_list_rotate)
    have le: "current_size ?s \<le> target_size"
      using size fits k by simp
    have i: "current_idx ?s = start_idx" using idx jn assms by simp
    have len: "mode \<noteq> ''tokens'' \<longrightarrow> int (length (concat (result ?s))) = current_size ?s"
    proof
      assume m: "mode \<noteq> ''tokens''"
      have "next_size ct mode = next_size ct ''chars''"
        using m by (auto simp: next_size_def)
      then show "int (length (concat (result ?s))) = current_size ?s"
        unfolding r sz by (simp add: length_concat_chars [where ct = ct] sum_list_rotate)
    qed
    show ?thesis using j(4) gen r sz le i len by auto
  qed
  show ?thesis using A B by blast
qed

theorem accumulate_stops_or_wraps_witness:
  "(1::nat) < length [''ab'', ''c''] \<and>
   sum_list (map (next_size length ''chars'') (take (Suc 0) (rotate 1 [''ab'', ''c'']))) \<le> 100 \<and>
   sum_list (map (next_size length ''chars'') (take (Suc 1) (rotate 1 [''ab'', ''c'']))) \<le> 100 \<and>
   generate_text length [''ab'', ''c''] 1 100 ''chars'' = Some (Inr (''c'' @ sep @ ''ab'' @ sep))"
  using accumulate_stops_or_wraps [of 1 "[''ab'', ''c'']" length 100 "''chars''"]
  by (simp add: All_less_Suc numeral_2_eq_2 next_size_def sep_def)

section \<open>The shape of the result\<close>

text \<open>
  Claim C9. In chars mode, for every non-empty pool, every start index in it and every
  target, \<^verbatim>\<open>generate_text\<close> returns a string that ends with the separator \<^verbatim>\<open>'\n\n'\<close>,
  hence is not empty: a whole paragraph is appended with its separator, and the
  chars branch of the partial split appends the separator to whatever it cuts.
\<close>

theorem chars_result_ends_with_sep:
  assumes "start_idx < length paragraphs"
  shows "\<exists>t. generate_text ct paragraphs start_idx target_size ''chars'' = Some (Inr (t @ sep))
             \<and> t @ sep \<noteq> []"
proof -
  from accumulate_init [OF assms, of ct target_size "''chars''"] obtain j where j:
    "j \<le> length paragraphs"
    "accumulate ct paragraphs target_size ''chars'' start_idx (init start_idx)
       = Some (Inr (final ct target_size ''chars'' paragraphs start_idx j))"
    by blast
  let ?s = "final ct target_size ''chars'' paragraphs start_idx j"
  have gen: "generate_text ct paragraphs start_idx target_size ''chars'' = Some (Inr (concat (result ?s)))"
    using generate_text_final [OF assms j(2)] .
  have "\<exists>t. concat (result ?s) = t @ sep"
  proof (cases j)
    case 0
    then show ?thesis by (simp add: final_0 partial_split_def)
  next
    case (Suc k)
    then have "k < length paragraphs" using j(1) by simp
    from concat_walked_Suc [OF this, of ct "''chars''" start_idx]
    show ?thesis using Suc by (simp only: final_pos nat.distinct simp_thms) blast
  qed
  then show ?thesis using gen by (auto simp: sep_def)
qed

theorem chars_result_ends_with_sep_witness:
  "(0::nat) < length [''hello'', ''bye''] \<and>
   (\<exists>t. generate_text length [''hello'', ''bye''] 0 9 ''chars'' = Some (Inr (t @ sep)) \<and> t @ sep \<noteq> [])"
  using chars_result_ends_with_sep [of 0 "[''hello'', ''bye'']" length 9] by simp

text \<open>
  Claim C10. For every non-empty pool and every start index in it, the list of strings
  the loop has appended when it ends is either \<open>k\<close> whole paragraphs, each with its
  separator, for some \<open>k\<close> from 1 to the size of the pool, taken at the indices
  \<open>start_idx\<close>, \<open>start_idx + 1\<close>, ... modulo the size of the pool, which are pairwise
  different; or it is what the partial split of the first paragraph gave, and then no
  whole paragraph has been appended.
\<close>

theorem whole_paragraphs_once:
  assumes "start_idx < length paragraphs"
  shows "\<exists>s. accumulate ct paragraphs target_size mode start_idx (init start_idx) = Some (Inr s) \<and>
           ((\<exists>k. 0 < k \<and> k \<le> length paragraphs
                \<and> result s = map (\<lambda>i. paragraphs ! ((start_idx + i) mod length paragraphs) @ sep) [0..<k]
                \<and> distinct (map (\<lambda>i. (start_idx + i) mod length paragraphs) [0..<k]))
            \<or> result s = partial_split ct target_size mode (paragraphs ! start_idx))"
proof -
  from accumulate_init [OF assms, of ct target_size mode] obtain j where j:
    "j \<le> length paragraphs"
    "accumulate ct paragraphs target_size mode start_idx (init start_idx)
       = Some (Inr (final ct target_size mode paragraphs start_idx j))"
    by blast
  let ?s = "final ct target_size mode paragraphs start_idx j"
  show ?thesis
  proof (cases "j = 0")
    case True
    then have "result ?s = partial_split ct target_size mode (paragraphs ! start_idx)"
      by (simp add: final_0 init_def)
    then show ?thesis using j(2) by blast
  next
    case False
    then have "result ?s = map (\<lambda>i. paragraphs ! ((start_idx + i) mod length paragraphs) @ sep) [0..<j]"
      using j(1) by (simp add: final_pos walked_def cyc_nth o_def)
    moreover have "distinct (map (\<lambda>i. (start_idx + i) mod length paragraphs) [0..<j])"
      using j(1) by (rule cyclic_indices_distinct)
    ultimately show ?thesis using j False by blast
  qed
qed

theorem whole_paragraphs_once_witness:
  "(1::nat) < length [''hello'', ''bye''] \<and>
   (\<exists>s. accumulate length [''hello'', ''bye''] 9 ''chars'' 1 (init 1) = Some (Inr s) \<and>
      ((\<exists>k. 0 < k \<and> k \<le> length [''hello'', ''bye'']
           \<and> result s = map (\<lambda>i. [''hello'', ''bye''] ! ((1 + i) mod length [''hello'', ''bye'']) @ sep) [0..<k]
           \<and> distinct (map (\<lambda>i. (1 + i) mod length [''hello'', ''bye'']) [0..<k]))
       \<or> result s = partial_split length 9 ''chars'' ([''hello'', ''bye''] ! 1)))"
  using whole_paragraphs_once [of 1 "[''hello'', ''bye'']" length 9 "''chars''"] by simp




section \<open>The partial split\<close>

text \<open>
  Claim C8. In tokens mode, when the paragraph at the start index has more tokens than
  the target, the result is built from the words of that paragraph as \<^verbatim>\<open>split()\<close>
  gives them (by \<open>split_words\<close> they are not empty, hold no whitespace and are the
  paragraph without its whitespace). The words taken are the first \<open>k\<close>, where the sizes
  \<^verbatim>\<open>count_tokens(word + ' ')\<close> of the first \<open>k\<close> add up to at most the target and, unless
  all words are taken, those of the first \<open>k + 1\<close> exceed it. The result is these words
  joined by single spaces and followed by the separator, and the empty string when
  \<open>k = 0\<close>.
\<close>

theorem tokens_partial_greedy:
  assumes "start_idx < length paragraphs"
    and "target_size < int (ct (paragraphs ! start_idx))"
  shows "\<exists>k \<le> length (split (paragraphs ! start_idx)).
           generate_text ct paragraphs start_idx target_size ''tokens''
             = Some (Inr (if k = 0 then []
                          else join '' '' (take k (split (paragraphs ! start_idx))) @ sep)) \<and>
           (0 < k \<longrightarrow>
              sum_list (map (\<lambda>w. int (ct (w @ '' ''))) (take k (split (paragraphs ! start_idx))))
                \<le> target_size) \<and>
           (k < length (split (paragraphs ! start_idx)) \<longrightarrow>
              target_size <
                sum_list (map (\<lambda>w. int (ct (w @ '' ''))) (take (Suc k) (split (paragraphs ! start_idx)))))"
proof -
  let ?ws = "split (paragraphs ! start_idx)"
  have ov: "target_size < next_size ct ''tokens'' (paragraphs ! start_idx)"
    using assms(2) by (simp add: next_size_def)
  from take_words_greedy [of ?ws ct target_size "[]" 0] obtain k where k:
    "k \<le> length ?ws"
    "take_words ct target_size ?ws [] 0 = take k ?ws"
    "0 < k \<longrightarrow> sum_list (map (\<lambda>w. int (ct (w @ '' ''))) (take k ?ws)) \<le> target_size"
    "k < length ?ws \<longrightarrow> target_size < sum_list (map (\<lambda>w. int (ct (w @ '' ''))) (take (Suc k) ?ws))"
    by auto
  have "(take k ?ws = []) = (k = 0)" using k(1) by (cases ?ws) auto
  then have "generate_text ct paragraphs start_idx target_size ''tokens''
             = Some (Inr (if k = 0 then [] else join '' '' (take k ?ws) @ sep))"
    using first_overflow(2) [OF assms(1) ov] k(2) by (simp add: partial_split_def)
  then show ?thesis using k(1,3,4) by blast
qed

theorem tokens_partial_greedy_witness:
  "(0::nat) < length [''hello world  foo'', ''ab''] \<and>
   13 < int (length ([''hello world  foo'', ''ab''] ! 0)) \<and>
   (\<exists>k \<le> length (split ([''hello world  foo'', ''ab''] ! 0)).
      generate_text length [''hello world  foo'', ''ab''] 0 13 ''tokens''
        = Some (Inr (if k = 0 then []
                     else join '' '' (take k (split ([''hello world  foo'', ''ab''] ! 0))) @ sep)) \<and>
      (0 < k \<longrightarrow>
         sum_list (map (\<lambda>w. int (length (w @ '' ''))) (take k (split ([''hello world  foo'', ''ab''] ! 0))))
           \<le> 13) \<and>
      (k < length (split ([''hello world  foo'', ''ab''] ! 0)) \<longrightarrow>
         13 < sum_list (map (\<lambda>w. int (length (w @ '' '')))
                (take (Suc k) (split ([''hello world  foo'', ''ab''] ! 0)))))) \<and>
   generate_text length [''hello world  foo'', ''ab''] 0 13 ''tokens''
     = Some (Inr (''hello world'' @ sep))"
proof -
  have "generate_text length [''hello world  foo'', ''ab''] 0 13 ''tokens''
          = Some (Inr (''hello world'' @ sep))"
    by (simp add: generate_text_def init_def, subst accumulate.simps)
       (simp add: next_size_def partial_split_def split_def is_space_def)
  then show ?thesis
    using tokens_partial_greedy [of 0 "[''hello world  foo'', ''ab'']" 13 length] by simp
qed

section \<open>The scenarios of the specification\<close>

text \<open>
  Claim C5, as amended. In chars mode, for a pool of three paragraphs of 40, 50 and 60
  characters, start index 0 and target 100: the loop appends paragraph 0 (accumulated
  size 42), then paragraph 1 (accumulated size 94), and stops at paragraph 2, which
  would bring the size to 156. The result is paragraph 0, the separator, paragraph 1,
  the separator; its length is 94, the accumulated size, not 92.
\<close>

theorem scenario_40_50_60:
  assumes "length p0 = 40" "length p1 = 50" "length p2 = 60"
  shows "accumulate ct [p0, p1, p2] 100 ''chars'' 0 (init 0)
           = accumulate ct [p0, p1, p2] 100 ''chars'' 0
               \<lparr>result = [p0 @ sep], current_size = 42, current_idx = 1\<rparr>
         \<and> accumulate ct [p0, p1, p2] 100 ''chars'' 0
               \<lparr>result = [p0 @ sep], current_size = 42, current_idx = 1\<rparr>
           = accumulate ct [p0, p1, p2] 100 ''chars'' 0
               \<lparr>result = [p0 @ sep, p1 @ sep], current_size = 94, current_idx = 2\<rparr>
         \<and> accumulate ct [p0, p1, p2] 100 ''chars'' 0
               \<lparr>result = [p0 @ sep, p1 @ sep], current_size = 94, current_idx = 2\<rparr>
           = Some (Inr \<lparr>result = [p0 @ sep, p1 @ sep], current_size = 94, current_idx = 2\<rparr>)
         \<and> 94 + next_size ct ''chars'' p2 = 156
         \<and> generate_text ct [p0, p1, p2] 0 100 ''chars'' = Some (Inr (p0 @ sep @ p1 @ sep))
         \<and> length (p0 @ sep @ p1 @ sep) = 94"
  using walk_40_50_60 [OF assms, of ct] generate_40_50_60 [OF assms, of ct] assms
  by (simp add: sep_def)

theorem scenario_40_50_60_witness:
  "length (replicate 40 CHR ''a'') = 40 \<and> length (replicate 50 CHR ''b'') = 50 \<and>
   length (replicate 60 CHR ''c'') = 60 \<and>
   generate_text length [replicate 40 CHR ''a'', replicate 50 CHR ''b'', replicate 60 CHR ''c'']
       0 100 ''chars''
     = Some (Inr (replicate 40 CHR ''a'' @ sep @ replicate 50 CHR ''b'' @ sep)) \<and>
   length (replicate 40 CHR ''a'' @ sep @ replicate 50 CHR ''b'' @ sep) = 94"
  using scenario_40_50_60 [of "replicate 40 CHR ''a''" "replicate 50 CHR ''b''"
      "replicate 60 CHR ''c''" length]
  by simp

theorem scenario_40_50_60_length_not_92:
  "generate_text length [replicate 40 CHR ''a'', replicate 50 CHR ''b'', replicate 60 CHR ''c'']
       0 100 ''chars''
     = Some (Inr (replicate 40 CHR ''a'' @ sep @ replicate 50 CHR ''b'' @ sep)) \<and>
   length (replicate 40 CHR ''a'' @ sep @ replicate 50 CHR ''b'' @ sep) \<noteq> 92"
  using generate_40_50_60 [of "replicate 40 CHR ''a''" "replicate 50 CHR ''b''"
      "replicate 60 CHR ''c''" length]
  by (simp add: sep_def)

text \<open>
  Claim C6. In chars mode, for a pool of one paragraph of 500 characters and target 50,
  the result is the first 48 characters of the paragraph followed by the separator, a
  string of length 50.
\<close>

theorem single_paragraph_500:
  assumes "length p = 500"
  shows "generate_text ct [p] 0 50 ''chars'' = Some (Inr (take 48 p @ sep))
         \<and> length (take 48 p @ sep) = 50"
proof -
  have ov: "50 < next_size ct ''chars'' ([p] ! 0)"
    using assms by (simp add: next_size_def)
  have "slice_to p (50 - 2) = take 48 p"
    using assms by (simp add: slice_to_def)
  then show ?thesis
    using first_overflow(2) [of 0 "[p]" 50 ct "''chars''"] ov assms
    by (simp add: partial_split_def sep_def)
qed

theorem single_paragraph_500_witness:
  "length (replicate 500 CHR ''a'') = 500 \<and>
   generate_text length [replicate 500 CHR ''a''] 0 50 ''chars''
     = Some (Inr (replicate 48 CHR ''a'' @ sep)) \<and>
   length (replicate 48 CHR ''a'' @ sep) = 50"
  using single_paragraph_500 [of "replicate 500 CHR ''a''" length] by simp

section \<open>Targets below 2\<close>

text \<open>
  Claim C3, as amended. \<^verbatim>\<open>generate_text\<close> has no check of the target. For a target of 0
  or less, a non-empty pool and a start index in it, the function does not reject the
  request: the accumulation runs to its end and the function returns a string.
\<close>

theorem nonpositive_target_runs:
  assumes "target_size \<le> 0" "start_idx < length paragraphs"
  shows "\<exists>s. accumulate ct paragraphs target_size mode start_idx (init start_idx) = Some (Inr s)
             \<and> generate_text ct paragraphs start_idx target_size mode = Some (Inr (concat (result s)))"
proof -
  from accumulate_init [OF assms(2), of ct target_size mode] obtain s where
    s: "accumulate ct paragraphs target_size mode start_idx (init start_idx) = Some (Inr s)"
    by blast
  from generate_text_final [OF assms(2) s] s show ?thesis by blast
qed

theorem nonpositive_target_runs_witness:
  "(-1::int) \<le> 0 \<and> (0::nat) < length [''hello''] \<and>
   (\<exists>s. accumulate length [''hello''] (-1) ''tokens'' 0 (init 0) = Some (Inr s)
        \<and> generate_text length [''hello''] 0 (-1) ''tokens'' = Some (Inr (concat (result s))))"
  using nonpositive_target_runs [of "-1" 0 "[''hello'']" length "''tokens''"] by simp

theorem target_0_not_rejected:
  "generate_text length [''hello''] 0 0 ''chars'' = Some (Inr (''hel'' @ sep))"
  by (simp add: generate_text_def init_def, subst accumulate.simps)
     (simp add: next_size_def partial_split_def slice_to_def sep_def)

text \<open>
  Claim C1, at a target of 1 in chars mode. The first paragraph does not fit, the slice
  \<^verbatim>\<open>paragraph[:target_size - 2]\<close> is \<^verbatim>\<open>paragraph[:-1]\<close>, and the function returns the
  paragraph without its last character, followed by the separator: 17 characters for a
  target of 1.
\<close>

theorem chars_target_1_overshoots:
  "generate_text length [''Call me Ishmael.'', ''Some years ago''] 0 1 ''chars''
     = Some (Inr (''Call me Ishmael'' @ sep))
   \<and> \<not> int (length (''Call me Ishmael'' @ sep)) \<le> 1"
  by (simp add: generate_text_def init_def, subst accumulate.simps)
     (simp add: next_size_def partial_split_def slice_to_def sep_def)

text \<open>
  Claim C2, at a remaining budget of 1. The partial split in chars mode does not take 0
  characters: with the negative bound \<open>-1\<close> the slice drops the last character of the
  paragraph and keeps the rest.
\<close>

theorem chars_target_1_slice_not_clamped:
  "partial_split length 1 ''chars'' ''hello'' = [''hell'' @ sep]
   \<and> generate_text length [''hello''] 0 1 ''chars'' = Some (Inr (''hell'' @ sep))
   \<and> ''hell'' @ sep \<noteq> take 0 ''hello'' @ sep"
  by (simp add: generate_text_def init_def, subst accumulate.simps)
     (simp add: next_size_def partial_split_def slice_to_def sep_def)

end
